theory Spec2Isabelle
  imports Complex_Main
begin

section \<open>Bounding boxes and intersection over union (main.py, FaceTracker)\<close>

text \<open>
  A bounding box is the tuple \<open>(x, y, w, h)\<close>. The detectors produce Python numbers and the
  source divides with \<open>/\<close> (true division), so coordinates are modelled as reals; rounding of
  floating-point arithmetic is not modelled anywhere in this theory.
\<close>

type_synonym bbox = "real \<times> real \<times> real \<times> real"

text \<open>The locals \<open>intersection\<close> and \<open>union\<close> of \<open>_calculate_iou\<close>, as the source computes them
  on the path that does not return early.\<close>

definition iou_intersection :: "bbox \<Rightarrow> bbox \<Rightarrow> real" where
  "iou_intersection bbox1 bbox2 =
     (case bbox1 of (x1, y1, w1, h1) \<Rightarrow> case bbox2 of (x2, y2, w2, h2) \<Rightarrow>
        let x_left = max x1 x2;
            y_top = max y1 y2;
            x_right = min (x1 + w1) (x2 + w2);
            y_bottom = min (y1 + h1) (y2 + h2)
        in (x_right - x_left) * (y_bottom - y_top))"

definition iou_union :: "bbox \<Rightarrow> bbox \<Rightarrow> real" where
  "iou_union bbox1 bbox2 =
     (case bbox1 of (x1, y1, w1, h1) \<Rightarrow> case bbox2 of (x2, y2, w2, h2) \<Rightarrow>
        w1 * h1 + w2 * h2 - iou_intersection bbox1 bbox2)"

definition calculate_iou :: "bbox \<Rightarrow> bbox \<Rightarrow> real" where
  "calculate_iou bbox1 bbox2 =
     (case bbox1 of (x1, y1, w1, h1) \<Rightarrow> case bbox2 of (x2, y2, w2, h2) \<Rightarrow>
        let x_left = max x1 x2;
            y_top = max y1 y2;
            x_right = min (x1 + w1) (x2 + w2);
            y_bottom = min (y1 + h1) (y2 + h2)
        in if x_right < x_left \<or> y_bottom < y_top then 0
           else if iou_union bbox1 bbox2 > 0
                then iou_intersection bbox1 bbox2 / iou_union bbox1 bbox2
                else 0)"

text \<open>
  Two boxes overlap when their interiors share a point. This predicate is not in the source;
  it states the geometric notion the properties of \<open>calculate_iou\<close> are phrased with, and
  \<open>boxes_overlap_iff_common_point\<close> below justifies the closed form.
\<close>

definition boxes_overlap :: "bbox \<Rightarrow> bbox \<Rightarrow> bool" where
  "boxes_overlap bbox1 bbox2 =
     (case bbox1 of (x1, y1, w1, h1) \<Rightarrow> case bbox2 of (x2, y2, w2, h2) \<Rightarrow>
        max x1 x2 < min (x1 + w1) (x2 + w2) \<and> max y1 y2 < min (y1 + h1) (y2 + h2))"

section \<open>The gallery (database_manager.py, FaceDatabase)\<close>

text \<open>
  A feature vector is a one-dimensional numpy array, modelled as a list of reals. The gallery
  is the Python dict \<open>{name: {'encodings': [...], 'metadata': {...}}}\<close>. Python dicts keep
  insertion order and \<open>get_all_encodings\<close> iterates in that order, so dicts are association
  lists: \<open>dict_get\<close> is \<open>d.get(k)\<close>, \<open>dict_set\<close> is \<open>d[k] = v\<close> (an existing key keeps its
  position, a new key goes to the end) and \<open>dict_del\<close> is \<open>del d[k]\<close>.
\<close>

type_synonym encoding = "real list"

type_synonym ('k, 'v) dict = "('k \<times> 'v) list"

fun dict_get :: "('k, 'v) dict \<Rightarrow> 'k \<Rightarrow> 'v option" where
  "dict_get [] k = None"
| "dict_get ((k', v) # d) k = (if k' = k then Some v else dict_get d k)"

fun dict_set :: "('k, 'v) dict \<Rightarrow> 'k \<Rightarrow> 'v \<Rightarrow> ('k, 'v) dict" where
  "dict_set [] k v = [(k, v)]"
| "dict_set ((k', v') # d) k v = (if k' = k then (k, v) # d else (k', v') # dict_set d k v)"

fun dict_del :: "('k, 'v) dict \<Rightarrow> 'k \<Rightarrow> ('k, 'v) dict" where
  "dict_del [] k = []"
| "dict_del ((k', v') # d) k = (if k' = k then d else (k', v') # dict_del d k)"

definition dict_keys :: "('k, 'v) dict \<Rightarrow> 'k list" where
  "dict_keys d = map fst d"

record person =
  encodings :: "encoding list"
  metadata :: "(string, string) dict"

type_synonym database = "(string, person) dict"

text \<open>
  \<open>add_person(name, encoding, metadata=None)\<close>. The two calls of \<open>datetime.now().isoformat()\<close>
  are the parameters \<open>now_added\<close> and \<open>now_updated\<close>. A \<open>metadata\<close> argument is taken by value:
  every caller in the repository uses the two-argument form, which starts from a fresh dict.
  The function has no failing branch and returns \<open>True\<close>; the model returns that flag with
  the new gallery.
\<close>

definition add_person ::
  "string \<Rightarrow> string \<Rightarrow> database \<Rightarrow> string \<Rightarrow> encoding \<Rightarrow> (string, string) dict option
     \<Rightarrow> bool \<times> database" where
  "add_person now_added now_updated db name enc md =
     (let db1 = (case dict_get db name of
                   Some p \<Rightarrow> db
                 | None \<Rightarrow>
                     dict_set db name
                       \<lparr>encodings = [],
                        metadata = dict_set (case md of None \<Rightarrow> [] | Some m \<Rightarrow> m)
                                     ''added_date'' now_added\<rparr>)
      in case dict_get db1 name of
           Some p \<Rightarrow>
             (True,
              dict_set db1 name
                (p\<lparr>encodings := encodings p @ [enc],
                   metadata := dict_set (metadata p) ''last_updated'' now_updated\<rparr>))
         | None \<Rightarrow> (True, db1))"

definition remove_person :: "database \<Rightarrow> string \<Rightarrow> bool \<times> database" where
  "remove_person db name =
     (case dict_get db name of Some p \<Rightarrow> (True, dict_del db name) | None \<Rightarrow> (False, db))"

text \<open>\<open>get_all_encodings\<close>: the two nested loops, appending to \<open>encodings\<close> and \<open>names\<close>.\<close>

fun get_all_encodings :: "database \<Rightarrow> encoding list \<times> string list" where
  "get_all_encodings [] = ([], [])"
| "get_all_encodings ((name, data) # db) =
     (let (es, ns) = get_all_encodings db
      in (encodings data @ es, map (\<lambda>e. name) (encodings data) @ ns))"

section \<open>The matcher (face_matcher.py, FaceMatcher)\<close>

datatype error = ValueError | KeyError | IOError | UnpicklingError

text \<open>
  Elementwise arithmetic on two one-dimensional numpy arrays follows numpy's broadcasting:
  equal lengths pair up, an array of length one is repeated, anything else raises
  \<open>ValueError\<close>.
\<close>

definition np_broadcast :: "encoding \<Rightarrow> encoding \<Rightarrow> error + (real \<times> real) list" where
  "np_broadcast u v =
     (if length u = length v then Inr (zip u v)
      else if length u = 1 then Inr (map (\<lambda>b. (hd u, b)) v)
      else if length v = 1 then Inr (map (\<lambda>a. (a, hd v)) u)
      else Inl ValueError)"

definition epsilon :: real where
  "epsilon = 1 / 10 ^ 10"

text \<open>
  A float64 that the matcher computes is a finite number, \<open>inf\<close> or \<open>nan\<close>. Feature vectors
  hold finite numbers, and the only operation that leaves the finite numbers is the division
  in \<open>_calculate_distance\<close>: numpy divides by zero without raising, giving \<open>nan\<close> for \<open>0/0\<close>
  and \<open>inf\<close> for a positive numerator (the numerator is a square, so \<open>-inf\<close> does not arise).
  Sums and products propagate \<open>nan\<close> first, then \<open>inf\<close>.
\<close>

datatype np_float = Finite real | PosInf | NaN

text \<open>\<open>x ** 2 / y\<close> on floats.\<close>

definition np_square_over :: "real \<Rightarrow> real \<Rightarrow> np_float" where
  "np_square_over x y =
     (if y = 0 then (if x ^ 2 = 0 then NaN else PosInf) else Finite (x ^ 2 / y))"

fun np_add :: "np_float \<Rightarrow> np_float \<Rightarrow> np_float" where
  "np_add (Finite x) (Finite y) = Finite (x + y)"
| "np_add (Finite x) PosInf = PosInf"
| "np_add PosInf (Finite y) = PosInf"
| "np_add PosInf PosInf = PosInf"
| "np_add NaN y = NaN"
| "np_add (Finite x) NaN = NaN"
| "np_add PosInf NaN = NaN"

definition np_sum :: "np_float list \<Rightarrow> np_float" where
  "np_sum xs = foldr np_add xs (Finite 0)"

text \<open>\<open>0.5 * x\<close>.\<close>

fun np_half :: "np_float \<Rightarrow> np_float" where
  "np_half (Finite x) = Finite (0.5 * x)"
| "np_half PosInf = PosInf"
| "np_half NaN = NaN"

definition calculate_distance :: "encoding \<Rightarrow> encoding \<Rightarrow> error + np_float" where
  "calculate_distance encoding1 encoding2 =
     (case np_broadcast encoding1 encoding2 of
        Inl e \<Rightarrow> Inl e
      | Inr ps \<Rightarrow>
          Inr (np_half (np_sum (map (\<lambda>(a, b). np_square_over (a - b) (a + b + epsilon)) ps))))"

fun calculate_distances :: "encoding \<Rightarrow> encoding list \<Rightarrow> error + np_float list" where
  "calculate_distances enc [] = Inr []"
| "calculate_distances enc (known_encoding # known_encodings) =
     (case calculate_distance enc known_encoding of
        Inl e \<Rightarrow> Inl e
      | Inr distance \<Rightarrow>
          (case calculate_distances enc known_encodings of
             Inl e \<Rightarrow> Inl e
           | Inr distances \<Rightarrow> Inr (distance # distances)))"

text \<open>
  \<open>np.argmin\<close>: the index of the first occurrence of the minimum; \<open>ValueError\<close> on an empty
  array. In numpy's minimum a \<open>nan\<close> comes before every number (the index of the first \<open>nan\<close>
  is returned when there is one) and \<open>inf\<close> after every finite number: \<open>np_less\<close> is that
  order, and \<open>np_le x y\<close> says that \<open>y\<close> does not come before \<open>x\<close>.
\<close>

fun np_less :: "np_float \<Rightarrow> np_float \<Rightarrow> bool" where
  "np_less NaN NaN = False"
| "np_less NaN (Finite b) = True"
| "np_less NaN PosInf = True"
| "np_less (Finite a) NaN = False"
| "np_less (Finite a) (Finite b) = (a < b)"
| "np_less (Finite a) PosInf = True"
| "np_less PosInf y = False"

definition np_le :: "np_float \<Rightarrow> np_float \<Rightarrow> bool" where
  "np_le x y = (\<not> np_less y x)"

fun argmin_from :: "np_float list \<Rightarrow> nat \<Rightarrow> np_float \<Rightarrow> nat \<Rightarrow> nat" where
  "argmin_from [] i best best_i = best_i"
| "argmin_from (d # ds) i best best_i =
     (if np_less d best then argmin_from ds (Suc i) d i
      else argmin_from ds (Suc i) best best_i)"

definition np_argmin :: "np_float list \<Rightarrow> error + nat" where
  "np_argmin ds = (case ds of [] \<Rightarrow> Inl ValueError | d # rest \<Rightarrow> Inr (argmin_from rest 1 d 0))"

text \<open>
  \<open>match_face\<close>, with \<open>self.tolerance\<close> and the gallery as parameters. The result \<open>None\<close> of
  the source is \<open>None\<close> here. The test \<open>best_distance <= self.tolerance\<close> is false when
  \<open>best_distance\<close> is \<open>inf\<close> or \<open>nan\<close>.
\<close>

definition match_face :: "real \<Rightarrow> database \<Rightarrow> encoding \<Rightarrow> error + (string option \<times> real)" where
  "match_face tolerance db enc =
     (let (known_encodings, known_names) = get_all_encodings db
      in if known_encodings = [] then Inr (None, 0)
         else case calculate_distances enc known_encodings of
                Inl e \<Rightarrow> Inl e
              | Inr distances \<Rightarrow>
                  (case np_argmin distances of
                     Inl e \<Rightarrow> Inl e
                   | Inr best_match_idx \<Rightarrow>
                       (case distances ! best_match_idx of
                          Finite best_distance \<Rightarrow>
                            if best_distance \<le> tolerance
                            then Inr (Some (known_names ! best_match_idx),
                                      max 0 (min 1 (1 - best_distance / 2)))
                            else Inr (None, 0)
                        | _ \<Rightarrow> Inr (None, 0))))"

text \<open>For two vectors of the same length whose denominators are all non-zero the distance is
  finite and has this closed form (lemma \<open>calculate_distance_finite\<close>).\<close>

definition chi_square :: "encoding \<Rightarrow> encoding \<Rightarrow> real" where
  "chi_square u v = 0.5 * sum_list (map (\<lambda>(a, b). (a - b) ^ 2 / (a + b + epsilon)) (zip u v))"

section \<open>The tracker (main.py, FaceTracker)\<close>

text \<open>
  A detection is the tuple \<open>(bbox, name, confidence, is_known)\<close>; the tuples \<open>update\<close> returns
  have the same shape. A track is the dict \<open>{'bbox', 'name_votes', 'age'}\<close>, where
  \<open>name_votes\<close> maps a name to a \<open>deque(maxlen=history_size)\<close> of confidences, oldest first.
\<close>

type_synonym detection = "bbox \<times> string \<times> real \<times> bool"

record track =
  bbox :: bbox
  name_votes :: "(string, real list) dict"
  age :: int

record face_tracker =
  tracks :: "(int, track) dict"
  next_id :: int
  history_size :: nat
  iou_threshold :: real
  max_age :: int

definition FaceTracker_init :: "nat \<Rightarrow> real \<Rightarrow> face_tracker" where
  "FaceTracker_init hs thr =
     \<lparr>tracks = [], next_id = 0, history_size = hs, iou_threshold = thr, max_age = 10\<rparr>"

text \<open>\<open>deque(xs, maxlen=n)\<close> keeps the last \<open>n\<close> items of \<open>xs\<close>; \<open>append\<close> on a full deque
  drops the oldest item.\<close>

definition deque_new :: "nat \<Rightarrow> real list \<Rightarrow> real list" where
  "deque_new maxlen xs = drop (length xs - maxlen) xs"

definition deque_append :: "nat \<Rightarrow> real list \<Rightarrow> real \<Rightarrow> real list" where
  "deque_append maxlen q c = deque_new maxlen (q @ [c])"

text \<open>\<open>np.mean\<close> of a non-empty sequence. (On an empty one numpy yields \<open>nan\<close>, which is
  outside this model; every queue the tracker stores is non-empty when \<open>history_size > 0\<close>.)\<close>

definition np_mean :: "real list \<Rightarrow> real" where
  "np_mean q = sum_list q / real (length q)"

text \<open>
  \<open>max(track['name_votes'].items(), key=lambda x: (len(x[1]), np.mean(x[1])))\<close>: Python's
  \<open>max\<close> walks the items in dict order and replaces the current best only by an item whose
  key is strictly greater; keys are tuples, compared lexicographically.
\<close>

definition vote_key :: "string \<times> real list \<Rightarrow> nat \<times> real" where
  "vote_key x = (length (snd x), np_mean (snd x))"

definition key_less :: "nat \<times> real \<Rightarrow> nat \<times> real \<Rightarrow> bool" where
  "key_less a b = (fst a < fst b \<or> (fst a = fst b \<and> snd a < snd b))"

fun max_by_key :: "string \<times> real list \<Rightarrow> (string \<times> real list) list \<Rightarrow> string \<times> real list" where
  "max_by_key best [] = best"
| "max_by_key best (x # xs) =
     (if key_less (vote_key best) (vote_key x) then max_by_key x xs else max_by_key best xs)"

text \<open>Lines 77 to 84 of main.py: the label of a track from its votes, with the confidence of
  the current detection standing in when there are no votes.\<close>

definition stable_label :: "(string, real list) dict \<Rightarrow> real \<Rightarrow> string \<times> real" where
  "stable_label votes confidence =
     (case votes of
        [] \<Rightarrow> (''Unknown'', confidence)
      | v # vs \<Rightarrow> (let best_name = max_by_key v vs in (fst best_name, np_mean (snd best_name))))"

text \<open>The ageing loop at the head of \<open>update\<close>: every track's age goes up by one, and a track
  whose age then exceeds \<open>max_age\<close> is deleted.\<close>

fun age_tracks :: "int \<Rightarrow> (int, track) dict \<Rightarrow> (int, track) dict" where
  "age_tracks m [] = []"
| "age_tracks m ((track_id, t) # ts) =
     (let t' = t\<lparr>age := age t + 1\<rparr>
      in if age t' > m then age_tracks m ts else (track_id, t') # age_tracks m ts)"

text \<open>
  The inner loop over \<open>self.tracks.items()\<close>, carrying \<open>best_iou\<close> and \<open>best_track_id\<close>.
  \<open>matched_tracks\<close> is a Python set used for membership only; the model keeps the sequence of
  its \<open>add\<close> calls, one per detection of the call, and tests membership in \<open>set matched\<close>.
\<close>

fun find_best_track ::
  "real \<Rightarrow> int list \<Rightarrow> bbox \<Rightarrow> (int, track) dict \<Rightarrow> real \<Rightarrow> int option \<Rightarrow> int option" where
  "find_best_track thr matched bb [] best_iou best_track_id = best_track_id"
| "find_best_track thr matched bb ((track_id, t) # ts) best_iou best_track_id =
     (if track_id \<in> set matched then find_best_track thr matched bb ts best_iou best_track_id
      else let iou = calculate_iou bb (bbox t)
           in if iou > best_iou \<and> iou > thr
              then find_best_track thr matched bb ts iou (Some track_id)
              else find_best_track thr matched bb ts best_iou best_track_id)"

text \<open>
  The body of the loop over the detections: the emitted tuple, the id added to
  \<open>matched_tracks\<close>, and the tracker afterwards. \<open>self.tracks[best_track_id]\<close> raises
  \<open>KeyError\<close> on a missing key.
\<close>

definition process_detection ::
  "face_tracker \<Rightarrow> int list \<Rightarrow> detection \<Rightarrow> error + (detection \<times> int \<times> face_tracker)" where
  "process_detection s matched d =
     (case d of (bb, name, confidence, is_known) \<Rightarrow>
        (case find_best_track (iou_threshold s) matched bb (tracks s) 0 None of
           Some best_track_id \<Rightarrow>
             (case dict_get (tracks s) best_track_id of
                None \<Rightarrow> Inl KeyError
              | Some t \<Rightarrow>
                  let t1 = t\<lparr>bbox := bb, age := 0\<rparr>;
                      t2 = (if name \<noteq> [] \<and> is_known
                            then t1\<lparr>name_votes :=
                                      dict_set (name_votes t1) name
                                        (deque_append (history_size s)
                                           (case dict_get (name_votes t1) name of
                                              None \<Rightarrow> [] | Some q \<Rightarrow> q)
                                           confidence)\<rparr>
                            else t1);
                      stable = stable_label (name_votes t2) confidence
                  in Inr ((bb, fst stable, snd stable, fst stable \<noteq> ''Unknown''),
                          best_track_id,
                          s\<lparr>tracks := dict_set (tracks s) best_track_id t2\<rparr>))
         | None \<Rightarrow>
             let track_id = next_id s
             in Inr ((bb, name, confidence, is_known),
                     track_id,
                     s\<lparr>next_id := next_id s + 1,
                       tracks := dict_set (tracks s) track_id
                         \<lparr>bbox = bb,
                          name_votes = (if name \<noteq> [] \<and> is_known
                                        then [(name, deque_new (history_size s) [confidence])]
                                        else []),
                          age = 0\<rparr>\<rparr>)))"

fun update_loop ::
  "face_tracker \<Rightarrow> int list \<Rightarrow> detection list
     \<Rightarrow> error + (detection list \<times> int list \<times> face_tracker)" where
  "update_loop s matched [] = Inr ([], matched, s)"
| "update_loop s matched (d # ds) =
     (case process_detection s matched d of
        Inl e \<Rightarrow> Inl e
      | Inr (r, tid, s') \<Rightarrow>
          (case update_loop s' (matched @ [tid]) ds of
             Inl e \<Rightarrow> Inl e
           | Inr (rs, m, s'') \<Rightarrow> Inr (r # rs, m, s'')))"

text \<open>\<open>update_full\<close> is \<open>update\<close> together with the final \<open>matched_tracks\<close>; \<open>update\<close> returns
  what the source returns, and the tracker after the call.\<close>

definition update_full ::
  "face_tracker \<Rightarrow> detection list \<Rightarrow> error + (detection list \<times> int list \<times> face_tracker)" where
  "update_full s detections =
     update_loop (s\<lparr>tracks := age_tracks (max_age s) (tracks s)\<rparr>) [] detections"

definition update ::
  "face_tracker \<Rightarrow> detection list \<Rightarrow> error + (detection list \<times> face_tracker)" where
  "update s detections =
     (case update_full s detections of
        Inl e \<Rightarrow> Inl e
      | Inr (results, matched, s') \<Rightarrow> Inr (results, s'))"

text \<open>Successive calls of \<open>update\<close>, one per frame, collecting each call's \<open>matched_tracks\<close>.\<close>

fun run_updates ::
  "face_tracker \<Rightarrow> detection list list \<Rightarrow> error + (int list list \<times> face_tracker)" where
  "run_updates s [] = Inr ([], s)"
| "run_updates s (dets # frames) =
     (case update_full s dets of
        Inl e \<Rightarrow> Inl e
      | Inr (rs, m, s') \<Rightarrow>
          (case run_updates s' frames of
             Inl e \<Rightarrow> Inl e
           | Inr (ms, s'') \<Rightarrow> Inr (m # ms, s'')))"

text \<open>The states a tracker can be in: a fresh \<open>FaceTracker(history_size, iou_threshold)\<close> with a
  positive history size, and whatever \<open>update\<close> leaves behind.\<close>

inductive reachable :: "face_tracker \<Rightarrow> bool" where
  reachable_init: "0 < hs \<Longrightarrow> reachable (FaceTracker_init hs thr)"
| reachable_update: "reachable s \<Longrightarrow> update s dets = Inr (rs, s') \<Longrightarrow> reachable s'"

definition tracker_inv :: "face_tracker \<Rightarrow> bool" where
  "tracker_inv s =
     (distinct (dict_keys (tracks s)) \<and>
      list_all (\<lambda>k. k < next_id s) (dict_keys (tracks s)) \<and>
      0 < history_size s \<and> max_age s = 10 \<and>
      list_all (\<lambda>(k, t). 0 \<le> age t \<and> age t \<le> 10 \<and>
                  list_all (\<lambda>(n, q). q \<noteq> []) (name_votes t)) (tracks s))"

text \<open>
  What \<open>update\<close> emits for a detection \<open>d\<close>, in terms of the track \<open>t\<close> the detection was
  associated with as it stands after the call. A re-matched track yields the stabilised
  label and \<open>is_known = (name \<noteq> "Unknown")\<close>; a track created by the detection yields the
  detection itself, and its votes are seeded from the detection.
\<close>

definition emitted_for :: "bool \<Rightarrow> detection \<Rightarrow> track \<Rightarrow> detection \<Rightarrow> bool" where
  "emitted_for rematched d t r =
     (case d of (bb, name, confidence, is_known) \<Rightarrow>
        bbox t = bb \<and> age t = 0 \<and>
        (if rematched
         then r = (bb, fst (stable_label (name_votes t) confidence),
                   snd (stable_label (name_votes t) confidence),
                   fst (stable_label (name_votes t) confidence) \<noteq> ''Unknown'')
         else r = d \<and>
              name_votes t = (if name \<noteq> [] \<and> is_known then [(name, [confidence])] else [])))"

text \<open>A tracker for the examples: one track, at the box \<open>(10, 10, 50, 50)\<close>, whose votes are
  the confidences \<open>q\<close> for the name Alice.\<close>

definition alice_tracker :: "real list \<Rightarrow> face_tracker" where
  "alice_tracker q =
     \<lparr>tracks = [(0, \<lparr>bbox = (10, 10, 50, 50), name_votes = [(''Alice'', q)], age = 0\<rparr>)],
      next_id = 1, history_size = 5, iou_threshold = 1 / 2, max_age = 10\<rparr>"

section \<open>Durable storage (database_manager.py, load and save)\<close>













section \<open>Properties of intersection over union\<close>

lemma boxes_overlap_iff_common_point:
  "boxes_overlap (x1, y1, w1, h1) (x2, y2, w2, h2) \<longleftrightarrow>
     (\<exists>px py. x1 < px \<and> px < x1 + w1 \<and> y1 < py \<and> py < y1 + h1 \<and>
               x2 < px \<and> px < x2 + w2 \<and> y2 < py \<and> py < y2 + h2)"
proof
  assume ov: "boxes_overlap (x1, y1, w1, h1) (x2, y2, w2, h2)"
  then obtain px where px: "max x1 x2 < px" "px < min (x1 + w1) (x2 + w2)"
    using dense [of "max x1 x2" "min (x1 + w1) (x2 + w2)"] by (auto simp: boxes_overlap_def)
  from ov obtain py where py: "max y1 y2 < py" "py < min (y1 + h1) (y2 + h2)"
    using dense [of "max y1 y2" "min (y1 + h1) (y2 + h2)"] by (auto simp: boxes_overlap_def)
  from px py show "\<exists>px py. x1 < px \<and> px < x1 + w1 \<and> y1 < py \<and> py < y1 + h1 \<and>
               x2 < px \<and> px < x2 + w2 \<and> y2 < py \<and> py < y2 + h2"
    by (intro exI [of _ px] exI [of _ py]) simp
next
  assume "\<exists>px py. x1 < px \<and> px < x1 + w1 \<and> y1 < py \<and> py < y1 + h1 \<and>
               x2 < px \<and> px < x2 + w2 \<and> y2 < py \<and> py < y2 + h2"
  then show "boxes_overlap (x1, y1, w1, h1) (x2, y2, w2, h2)"
    by (auto simp: boxes_overlap_def)
qed

lemma calculate_iou_self:
  assumes "0 < w" "0 < h"
  shows "calculate_iou (x, y, w, h) (x, y, w, h) = 1"
proof -
  have "0 < w * h" using assms by simp
  then show ?thesis
    using assms by (simp add: calculate_iou_def iou_union_def iou_intersection_def)
qed

lemma calculate_iou_commute: "calculate_iou a b = calculate_iou b a"
proof -
  obtain x1 y1 w1 h1 where a: "a = (x1, y1, w1, h1)" by (cases a)
  obtain x2 y2 w2 h2 where b: "b = (x2, y2, w2, h2)" by (cases b)
  have i: "iou_intersection a b = iou_intersection b a"
    by (simp add: a b iou_intersection_def max.commute min.commute)
  have u: "iou_union a b = iou_union b a"
    using i by (simp add: a b iou_union_def)
  show ?thesis
    unfolding calculate_iou_def i u
    by (simp add: a b max.commute min.commute)
qed

lemma calculate_iou_no_overlap:
  assumes "\<not> boxes_overlap a b"
  shows "calculate_iou a b = 0"
proof -
  obtain x1 y1 w1 h1 where a: "a = (x1, y1, w1, h1)" by (cases a)
  obtain x2 y2 w2 h2 where b: "b = (x2, y2, w2, h2)" by (cases b)
  let ?dx = "min (x1 + w1) (x2 + w2) - max x1 x2"
  let ?dy = "min (y1 + h1) (y2 + h2) - max y1 y2"
  from assms have "?dx \<le> 0 \<or> ?dy \<le> 0"
    by (auto simp: a b boxes_overlap_def)
  then consider "?dx < 0 \<or> ?dy < 0" | "?dx = 0 \<or> ?dy = 0" by linarith
  then show ?thesis
  proof cases
    case 1
    then show ?thesis by (auto simp: a b calculate_iou_def Let_def)
  next
    case 2
    then have "iou_intersection a b = 0"
      by (auto simp: a b iou_intersection_def Let_def)
    then show ?thesis by (simp add: a b calculate_iou_def Let_def)
  qed
qed

lemma calculate_iou_zero_union:
  assumes "iou_union a b \<le> 0"
  shows "calculate_iou a b = 0"
  using assms by (cases a, cases b) (simp add: calculate_iou_def Let_def)

text \<open>
  Claim C6. For boxes \<open>(x, y, w, h)\<close>: the IoU of a box of positive width and height with
  itself is 1; IoU is symmetric in its two arguments; IoU is 0 for two boxes that do not
  overlap; and IoU is 0 when the union area is zero.
\<close>

theorem calculate_iou_properties:
  "(0 < w \<and> 0 < h \<longrightarrow> calculate_iou (x, y, w, h) (x, y, w, h) = 1) \<and>
   calculate_iou a b = calculate_iou b a \<and>
   (\<not> boxes_overlap a b \<longrightarrow> calculate_iou a b = 0) \<and>
   (iou_union a b = 0 \<longrightarrow> calculate_iou a b = 0)"
  using calculate_iou_self calculate_iou_commute calculate_iou_no_overlap
    calculate_iou_zero_union [of a b]
  by auto

theorem calculate_iou_properties_witness:
  "(0 < (50::real) \<and> 0 < (50::real)) \<and>
   calculate_iou (10, 10, 50, 50) (10, 10, 50, 50) = 1 \<and>
   calculate_iou (0, 0, 0, 0) (0, 0, 0, 0) = calculate_iou (0, 0, 0, 0) (0, 0, 0, 0) \<and>
   \<not> boxes_overlap (0, 0, 0, 0) (0, 0, 0, 0) \<and>
   iou_union (0, 0, 0, 0) (0, 0, 0, 0) = 0 \<and>
   calculate_iou (0, 0, 0, 0) (0, 0, 0, 0) = 0"
  using calculate_iou_properties [of 50 50 10 10 "(0, 0, 0, 0)" "(0, 0, 0, 0)"]
  by (simp add: boxes_overlap_def iou_union_def iou_intersection_def)

section \<open>Properties of the matcher\<close>

lemma np_le_refl: "np_le x x"
  by (cases x) (simp_all add: np_le_def)

lemma np_less_trans: "np_less x y \<Longrightarrow> np_less y z \<Longrightarrow> np_less x z"
  by (cases x; cases y; cases z) simp_all

lemma np_less_imp_le: "np_less x y \<Longrightarrow> np_le x y"
  by (cases x; cases y) (simp_all add: np_le_def)

lemma np_less_le_trans: "np_less x y \<Longrightarrow> np_le y z \<Longrightarrow> np_le x z"
  by (cases x; cases y; cases z) (simp_all add: np_le_def)

lemma np_le_Finite: "np_le (Finite a) (Finite b) \<longleftrightarrow> a \<le> b"
  by (auto simp: np_le_def)

lemma argmin_from_spec:
  "(argmin_from ds i best best_i = best_i \<and> (\<forall>d\<in>set ds. np_le best d)) \<or>
   (i \<le> argmin_from ds i best best_i \<and> argmin_from ds i best best_i < i + length ds \<and>
    np_less (ds ! (argmin_from ds i best best_i - i)) best \<and>
    (\<forall>d\<in>set ds. np_le (ds ! (argmin_from ds i best best_i - i)) d))"
proof (induction ds arbitrary: i best best_i)
  case Nil
  then show ?case by simp
next
  case (Cons d ds)
  show ?case
  proof (cases "np_less d best")
    case True
    from Cons.IH [of "Suc i" d i] show ?thesis
    proof
      assume h: "argmin_from ds (Suc i) d i = i \<and> (\<forall>d'\<in>set ds. np_le d d')"
      then show ?thesis using True by (simp add: np_le_refl)
    next
      assume h: "Suc i \<le> argmin_from ds (Suc i) d i \<and> argmin_from ds (Suc i) d i < Suc i + length ds \<and>
        np_less (ds ! (argmin_from ds (Suc i) d i - Suc i)) d \<and>
        (\<forall>d'\<in>set ds. np_le (ds ! (argmin_from ds (Suc i) d i - Suc i)) d')"
      let ?r = "argmin_from ds (Suc i) d i"
      from h have e: "?r - i = Suc (?r - Suc i)" by arith
      from h True have "np_less (ds ! (?r - Suc i)) best" using np_less_trans by blast
      moreover from h have "np_le (ds ! (?r - Suc i)) d" using np_less_imp_le by blast
      ultimately show ?thesis using True h e by auto
    qed
  next
    case False
    then have bd: "np_le best d" by (simp add: np_le_def)
    from Cons.IH [of "Suc i" best best_i] show ?thesis
    proof
      assume h: "argmin_from ds (Suc i) best best_i = best_i \<and> (\<forall>d'\<in>set ds. np_le best d')"
      then show ?thesis using False bd by simp
    next
      assume h: "Suc i \<le> argmin_from ds (Suc i) best best_i \<and> argmin_from ds (Suc i) best best_i < Suc i + length ds \<and>
        np_less (ds ! (argmin_from ds (Suc i) best best_i - Suc i)) best \<and>
        (\<forall>d'\<in>set ds. np_le (ds ! (argmin_from ds (Suc i) best best_i - Suc i)) d')"
      let ?r = "argmin_from ds (Suc i) best best_i"
      from h have e: "?r - i = Suc (?r - Suc i)" by arith
      from h bd have "np_le (ds ! (?r - Suc i)) d" using np_less_le_trans by blast
      then show ?thesis using False h e by auto
    qed
  qed
qed

lemma np_argmin_spec:
  assumes "ds \<noteq> []"
  shows "\<exists>r. np_argmin ds = Inr r \<and> r < length ds \<and> (\<forall>j<length ds. np_le (ds ! r) (ds ! j))"
proof -
  from assms obtain d rest where ds: "ds = d # rest" by (cases ds) auto
  let ?r = "argmin_from rest 1 d 0"
  have r: "np_argmin ds = Inr ?r" by (simp add: np_argmin_def ds)
  from argmin_from_spec [of rest 1 d 0]
  have "?r < length ds \<and> (\<forall>x\<in>set ds. np_le (ds ! ?r) x)"
  proof
    assume "?r = 0 \<and> (\<forall>x\<in>set rest. np_le d x)"
    then show ?thesis by (simp add: ds np_le_refl)
  next
    assume h: "1 \<le> ?r \<and> ?r < 1 + length rest \<and> np_less (rest ! (?r - 1)) d \<and>
      (\<forall>x\<in>set rest. np_le (rest ! (?r - 1)) x)"
    then have "ds ! ?r = rest ! (?r - 1)" by (simp add: ds nth_Cons')
    moreover from h have "np_le (rest ! (?r - 1)) d" using np_less_imp_le by blast
    ultimately show ?thesis using h by (auto simp: ds)
  qed
  then show ?thesis using r by auto
qed

lemma np_sum_Nil: "np_sum [] = Finite 0"
  by (simp add: np_sum_def)

lemma np_sum_Cons: "np_sum (t # ts) = np_add t (np_sum ts)"
  by (simp add: np_sum_def)

lemma np_add_NaN_iff: "np_add x y = NaN \<longleftrightarrow> x = NaN \<or> y = NaN"
  by (cases x; cases y) simp_all

lemma np_sum_NaN_iff: "np_sum ts = NaN \<longleftrightarrow> NaN \<in> set ts"
  by (induction ts) (auto simp: np_sum_Nil np_sum_Cons np_add_NaN_iff)

lemma np_half_NaN_iff: "np_half x = NaN \<longleftrightarrow> x = NaN"
  by (cases x) simp_all

lemma np_sum_Finite: "np_sum (map Finite rs) = Finite (sum_list rs)"
  by (induction rs) (simp_all add: np_sum_Nil np_sum_Cons)

lemma epsilon_pos: "0 < epsilon"
  by (simp add: epsilon_def)

lemma calculate_distance_finite:
  assumes len: "length u = length v"
    and den: "\<forall>(a, b)\<in>set (zip u v). a + b + epsilon \<noteq> 0"
  shows "calculate_distance u v = Inr (Finite (chi_square u v))"
proof -
  have eq: "map (\<lambda>(a, b). np_square_over (a - b) (a + b + epsilon)) (zip u v) =
        map Finite (map (\<lambda>(a, b). (a - b) ^ 2 / (a + b + epsilon)) (zip u v))"
    using den by (auto simp: np_square_over_def)
  have "calculate_distance u v =
          Inr (np_half (np_sum (map (\<lambda>(a, b). np_square_over (a - b) (a + b + epsilon)) (zip u v))))"
    using len by (simp add: calculate_distance_def np_broadcast_def)
  also have "\<dots> = Inr (Finite (chi_square u v))"
    unfolding eq np_sum_Finite by (simp add: chi_square_def)
  finally show ?thesis .
qed

lemma calculate_distance_nonneg:
  assumes len: "length u = length v"
    and u: "\<forall>x\<in>set u. 0 \<le> x" and v: "\<forall>x\<in>set v. 0 \<le> x"
  shows "calculate_distance u v = Inr (Finite (chi_square u v))"
proof (rule calculate_distance_finite [OF len])
  show "\<forall>(a, b)\<in>set (zip u v). a + b + epsilon \<noteq> 0"
  proof clarify
    fix a b assume ab: "(a, b) \<in> set (zip u v)" and z: "a + b + epsilon = 0"
    from ab have "a \<in> set u" "b \<in> set v" by (auto dest: set_zip_leftD set_zip_rightD)
    with u v have "0 \<le> a" "0 \<le> b" by auto
    with z epsilon_pos show False by arith
  qed
qed

lemma calculate_distance_not_NaN:
  assumes len: "length u = length v" and v: "\<forall>x\<in>set v. 0 \<le> x"
  shows "\<exists>d. calculate_distance u v = Inr d \<and> d \<noteq> NaN"
proof -
  let ?ts = "map (\<lambda>(a, b). np_square_over (a - b) (a + b + epsilon)) (zip u v)"
  have "NaN \<notin> set ?ts"
  proof
    assume "NaN \<in> set ?ts"
    then obtain a b where ab: "(a, b) \<in> set (zip u v)"
      and n: "np_square_over (a - b) (a + b + epsilon) = NaN" by auto
    from n have "a + b + epsilon = 0" and "(a - b) ^ 2 = 0"
      by (auto simp: np_square_over_def split: if_splits)
    then have "a = b" and "a + b + epsilon = 0" by auto
    moreover from ab have "b \<in> set v" by (auto dest: set_zip_rightD)
    with v have "0 \<le> b" by auto
    ultimately show False using epsilon_pos by arith
  qed
  then have "np_half (np_sum ?ts) \<noteq> NaN"
    by (simp add: np_half_NaN_iff np_sum_NaN_iff)
  then show ?thesis
    using len by (simp add: calculate_distance_def np_broadcast_def)
qed

lemma calculate_distances_spec:
  assumes "\<forall>e\<in>set encs. length e = length enc \<and> (\<forall>x\<in>set e. 0 \<le> x)"
  shows "\<exists>ds. calculate_distances enc encs = Inr ds \<and> length ds = length encs \<and>
           NaN \<notin> set ds \<and>
           (\<forall>j<length encs. calculate_distance enc (encs ! j) = Inr (ds ! j))"
  using assms
proof (induction encs)
  case Nil
  then show ?case by simp
next
  case (Cons e encs)
  from Cons.prems have "length enc = length e" "\<forall>x\<in>set e. 0 \<le> x" by auto
  from calculate_distance_not_NaN [OF this]
  obtain d where d: "calculate_distance enc e = Inr d" "d \<noteq> NaN" by auto
  from Cons obtain ds where ds: "calculate_distances enc encs = Inr ds"
    "length ds = length encs" "NaN \<notin> set ds"
    "\<forall>j<length encs. calculate_distance enc (encs ! j) = Inr (ds ! j)" by auto
  have "\<forall>j<length (e # encs). calculate_distance enc ((e # encs) ! j) = Inr ((d # ds) ! j)"
    using d(1) ds(4) by (auto simp: nth_Cons')
  then show ?case
    using d ds by (intro exI [of _ "d # ds"]) auto
qed

lemma chi_square_nonneg:
  assumes "\<forall>x\<in>set u. 0 \<le> x" "\<forall>x\<in>set v. 0 \<le> x"
  shows "0 \<le> chi_square u v"
proof -
  have "0 \<le> (a - b) ^ 2 / (a + b + epsilon)" if "(a, b) \<in> set (zip u v)" for a b
  proof -
    from that have "a \<in> set u" "b \<in> set v" by (auto dest: set_zip_leftD set_zip_rightD)
    with assms have "0 \<le> a + b + epsilon" by (simp add: epsilon_def)
    then show ?thesis by simp
  qed
  then have "0 \<le> sum_list (map (\<lambda>(a, b). (a - b) ^ 2 / (a + b + epsilon)) (zip u v))"
    by (intro sum_list_nonneg) auto
  then show ?thesis by (simp add: chi_square_def)
qed

lemma chi_square_self: "chi_square u u = 0"
proof -
  have "map (\<lambda>(a, b). (a - b) ^ 2 / (a + b + epsilon)) (zip u u) = map (\<lambda>a. 0) u"
    by (induction u) auto
  then show ?thesis by (simp add: chi_square_def)
qed

lemma get_all_encodings_length:
  "get_all_encodings db = (encs, names) \<Longrightarrow> length names = length encs"
  by (induction db arbitrary: encs names) (auto split: prod.splits)

lemma get_all_encodings_entries:
  "get_all_encodings db = (encs, names) \<Longrightarrow> i < length encs \<Longrightarrow>
   \<exists>p. (names ! i, p) \<in> set db \<and> encs ! i \<in> set (encodings p)"
proof (induction db arbitrary: encs names i)
  case Nil
  then show ?case by simp
next
  case (Cons a db)
  obtain name data where a: "a = (name, data)" by (cases a)
  obtain es ns where r: "get_all_encodings db = (es, ns)" by (cases "get_all_encodings db")
  from Cons.prems a r have encs: "encs = encodings data @ es"
    and names: "names = map (\<lambda>e. name) (encodings data) @ ns" by auto
  show ?case
  proof (cases "i < length (encodings data)")
    case True
    then have "names ! i = name" "encs ! i \<in> set (encodings data)"
      by (simp_all add: encs names nth_append)
    then show ?thesis using a by auto
  next
    case False
    let ?j = "i - length (encodings data)"
    from False Cons.prems have j: "?j < length es" by (simp add: encs)
    from False have "names ! i = ns ! ?j" "encs ! i = es ! ?j"
      by (simp_all add: encs names nth_append)
    with Cons.IH [OF r j] show ?thesis by auto
  qed
qed

text \<open>
  Claim C5. When the gallery holds no sample at all (no identity, or only identities with an
  empty sample list), \<open>match_face\<close> returns \<open>(None, 0.0)\<close> for every query vector and
  every tolerance, and raises nothing.
\<close>

theorem match_face_empty_gallery:
  "fst (get_all_encodings db) = [] \<Longrightarrow> match_face tolerance db enc = Inr (None, 0)"
  by (cases "get_all_encodings db") (simp add: match_face_def)

theorem match_face_empty_gallery_witness:
  "fst (get_all_encodings [(''Alice'', \<lparr>encodings = [], metadata = []\<rparr>)]) = [] \<and>
   match_face (6 / 10) [(''Alice'', \<lparr>encodings = [], metadata = []\<rparr>)] [1, 2] = Inr (None, 0)"
  using match_face_empty_gallery [of "[(''Alice'', \<lparr>encodings = [], metadata = []\<rparr>)]" "6 / 10" "[1, 2]"]
  by simp

text \<open>
  Where a denominator \<open>a + b + epsilon\<close> is zero the distance is not finite, and the test
  against the tolerance fails.
\<close>

lemma match_face_infinite_distance:
  "calculate_distance [- epsilon] [0] = Inr PosInf \<and>
   match_face tolerance [(''Alice'', \<lparr>encodings = [[0]], metadata = []\<rparr>)] [- epsilon] =
     Inr (None, 0)"
  using epsilon_pos
  by (simp add: match_face_def calculate_distance_def np_broadcast_def np_argmin_def
      np_square_over_def np_sum_Nil np_sum_Cons)

text \<open>
  Claim C2, as amended. For every query vector and every non-empty gallery of non-negative
  samples of the feature length (the length of the query), all the distances are computed,
  none of them is \<open>nan\<close>, and \<open>match_face\<close> picks an index \<open>i\<close> of minimum distance \<open>d\<close>: it
  returns the name of sample \<open>i\<close> with confidence \<open>clamp (1 - d / 2) 0 1\<close> when
  \<open>d \<le> tolerance\<close>, and \<open>(None, 0.0)\<close> otherwise (also when \<open>d\<close> is \<open>inf\<close>). When the query is
  itself a gallery sample the minimum distance is 0, and the confidence returned is 1.0
  provided the tolerance is not negative.
\<close>

theorem match_face_nearest:
  assumes g: "get_all_encodings db = (encs, names)"
    and ne: "encs \<noteq> []"
    and samples: "\<forall>e\<in>set encs. length e = length enc \<and> (\<forall>x\<in>set e. 0 \<le> x)"
  shows "\<exists>ds i. calculate_distances enc encs = Inr ds \<and> length ds = length encs \<and>
           i < length encs \<and> calculate_distance enc (encs ! i) = Inr (ds ! i) \<and>
           NaN \<notin> set ds \<and>
           (\<forall>j<length encs. np_le (ds ! i) (ds ! j)) \<and>
           (\<exists>p. (names ! i, p) \<in> set db \<and> encs ! i \<in> set (encodings p)) \<and>
           match_face tolerance db enc =
             (case ds ! i of
                Finite d \<Rightarrow>
                  if d \<le> tolerance
                  then Inr (Some (names ! i), max 0 (min 1 (1 - d / 2)))
                  else Inr (None, 0)
              | _ \<Rightarrow> Inr (None, 0)) \<and>
           (enc \<in> set encs \<longrightarrow> ds ! i = Finite 0) \<and>
           (enc \<in> set encs \<and> 0 \<le> tolerance \<longrightarrow>
              match_face tolerance db enc = Inr (Some (names ! i), 1))"
proof -
  from calculate_distances_spec [OF samples]
  obtain ds where ds: "calculate_distances enc encs = Inr ds" "length ds = length encs"
    "NaN \<notin> set ds" "\<forall>j<length encs. calculate_distance enc (encs ! j) = Inr (ds ! j)"
    by auto
  from ne ds(2) have "ds \<noteq> []" by auto
  from np_argmin_spec [OF this] ds(2) obtain i where i: "np_argmin ds = Inr i" "i < length encs"
    and least: "\<forall>j<length encs. np_le (ds ! i) (ds ! j)" by auto
  have di: "calculate_distance enc (encs ! i) = Inr (ds ! i)"
    using ds(4) i(2) by simp
  have m: "match_face tolerance db enc =
             (case ds ! i of
                Finite d \<Rightarrow>
                  if d \<le> tolerance
                  then Inr (Some (names ! i), max 0 (min 1 (1 - d / 2)))
                  else Inr (None, 0)
              | _ \<Rightarrow> Inr (None, 0))"
    using g ne ds(1) i(1) by (simp add: match_face_def)
  have z: "ds ! i = Finite 0" if "enc \<in> set encs"
  proof -
    from that samples have query: "\<forall>x\<in>set enc. 0 \<le> x" by blast
    have fin: "ds ! j = Finite (chi_square enc (encs ! j))" if "j < length encs" for j
    proof -
      from that have "encs ! j \<in> set encs" by simp
      with samples have "length enc = length (encs ! j)" "\<forall>x\<in>set (encs ! j). 0 \<le> x" by auto
      from calculate_distance_nonneg [OF this(1) query this(2)] ds(4) that
      show ?thesis by simp
    qed
    have nonneg: "0 \<le> chi_square enc (encs ! i)"
    proof -
      have "encs ! i \<in> set encs" using i(2) by simp
      with samples have "\<forall>x\<in>set (encs ! i). 0 \<le> x" by blast
      from chi_square_nonneg [OF query this] show ?thesis .
    qed
    from that obtain k where k: "k < length encs" "encs ! k = enc"
      by (auto simp: in_set_conv_nth)
    from least k(1) have "np_le (ds ! i) (ds ! k)" by simp
    then have "chi_square enc (encs ! i) \<le> chi_square enc enc"
      using fin [OF i(2)] fin [OF k(1)] k(2) by (simp add: np_le_Finite)
    with nonneg have "chi_square enc (encs ! i) = 0" by (simp add: chi_square_self)
    then show ?thesis using fin [OF i(2)] by simp
  qed
  have one: "match_face tolerance db enc = Inr (Some (names ! i), 1)"
    if "enc \<in> set encs" "0 \<le> tolerance"
    using m z [OF that(1)] that(2) by simp
  show ?thesis
    using ds(1,2,3) i(2) di least get_all_encodings_entries [OF g i(2)] m z one
    by (intro exI [of _ ds] exI [of _ i]) simp
qed

theorem match_face_nearest_witness:
  "get_all_encodings [(''Alice'', \<lparr>encodings = [[1, 0], [0, 1]], metadata = []\<rparr>)] =
     ([[1, 0], [0, 1]], [''Alice'', ''Alice'']) \<and>
   (\<exists>i. match_face (6 / 10) [(''Alice'', \<lparr>encodings = [[1, 0], [0, 1]], metadata = []\<rparr>)] [0, 1] =
          Inr (Some ([''Alice'', ''Alice''] ! i), 1))"
proof -
  let ?db = "[(''Alice'', \<lparr>encodings = [[1, 0], [0, 1]], metadata = []\<rparr>)]"
  have g: "get_all_encodings ?db = ([[1, 0], [0, 1]], [''Alice'', ''Alice''])" by simp
  from match_face_nearest [OF g, of "[0, 1]" "6 / 10"] g show ?thesis by auto
qed

text \<open>
  With a negative tolerance the second half of claim C2 fails as stated: the query is the
  only gallery sample, its distance is 0, and \<open>match_face\<close> still returns \<open>(None, 0.0)\<close>.
\<close>

theorem match_face_negative_tolerance_counterexample:
  "get_all_encodings [(''Alice'', \<lparr>encodings = [[1]], metadata = []\<rparr>)] = ([[1]], [''Alice'']) \<and>
   calculate_distance [1] [1] = Inr (Finite 0) \<and>
   match_face (- 1) [(''Alice'', \<lparr>encodings = [[1]], metadata = []\<rparr>)] [1] = Inr (None, 0)"
  by (simp add: match_face_def calculate_distance_def np_broadcast_def np_argmin_def
      np_square_over_def np_sum_Nil np_sum_Cons epsilon_def)

section \<open>Dictionaries, ageing and one step of the tracker\<close>

lemma dict_get_set: "dict_get (dict_set d k v) k' = (if k' = k then Some v else dict_get d k')"
  by (induction d) auto

lemma dict_keys_Nil: "dict_keys [] = []"
  by (simp add: dict_keys_def)

lemma dict_keys_Cons: "dict_keys ((k, v) # d) = k # dict_keys d"
  by (simp add: dict_keys_def)

lemma dict_keys_set: "set (dict_keys (dict_set d k v)) = insert k (set (dict_keys d))"
  by (induction d) (auto simp: dict_keys_Nil dict_keys_Cons split: if_splits)

lemma distinct_dict_set: "distinct (dict_keys d) \<Longrightarrow> distinct (dict_keys (dict_set d k v))"
proof (induction d)
  case Nil
  then show ?case by (simp add: dict_keys_def)
next
  case (Cons a d)
  obtain k' v' where a: "a = (k', v')" by (cases a)
  from Cons have "distinct (dict_keys (dict_set d k v))" by (simp add: dict_keys_def)
  moreover have "k' \<noteq> k \<Longrightarrow> k' \<notin> set (dict_keys (dict_set d k v))"
    using Cons.prems by (simp add: dict_keys_set a) (simp add: dict_keys_def)
  ultimately show ?case using Cons.prems by (auto simp: a dict_keys_def)
qed

lemma dict_get_None_iff: "dict_get d k = None \<longleftrightarrow> k \<notin> set (dict_keys d)"
  by (induction d) (auto simp: dict_keys_def split: if_splits)

lemma dict_get_mem: "dict_get d k = Some v \<Longrightarrow> (k, v) \<in> set d"
  by (induction d) (auto split: if_splits)

lemma list_all_dict_set: "list_all P d \<Longrightarrow> P (k, v) \<Longrightarrow> list_all P (dict_set d k v)"
  by (induction d) auto

lemma deque_new_single: "0 < n \<Longrightarrow> deque_new n [c] = [c]"
  by (simp add: deque_new_def)

lemma deque_append_nonempty: "0 < n \<Longrightarrow> deque_append n q c \<noteq> []"
  by (simp add: deque_append_def deque_new_def)

lemma age_tracks_keys: "set (dict_keys (age_tracks m ts)) \<subseteq> set (dict_keys ts)"
  by (induction ts) (auto simp: dict_keys_Nil dict_keys_Cons Let_def split: if_splits)

lemma age_tracks_distinct: "distinct (dict_keys ts) \<Longrightarrow> distinct (dict_keys (age_tracks m ts))"
proof (induction ts)
  case Nil
  then show ?case by simp
next
  case (Cons a ts)
  obtain k t where a: "a = (k, t)" by (cases a)
  from Cons.prems have "k \<notin> set (dict_keys ts)" by (simp add: a dict_keys_def)
  with age_tracks_keys [of m ts] have "k \<notin> set (dict_keys (age_tracks m ts))" by blast
  moreover from Cons have "distinct (dict_keys (age_tracks m ts))" by (simp add: dict_keys_def)
  ultimately show ?case by (simp add: a Let_def) (simp add: dict_keys_def)
qed

lemma dict_get_age_tracks:
  "distinct (dict_keys ts) \<Longrightarrow>
   dict_get (age_tracks m ts) k =
     (case dict_get ts k of
        None \<Rightarrow> None
      | Some t \<Rightarrow> if age t + 1 > m then None else Some (t\<lparr>age := age t + 1\<rparr>))"
proof (induction ts)
  case Nil
  then show ?case by simp
next
  case (Cons a ts)
  obtain k' t' where a: "a = (k', t')" by (cases a)
  from Cons.prems have nk: "k' \<notin> set (dict_keys ts)" and d: "distinct (dict_keys ts)"
    by (simp_all add: a dict_keys_def)
  from nk have "dict_get ts k' = None" by (simp add: dict_get_None_iff)
  with Cons.IH [OF d] show ?case by (auto simp: a Let_def)
qed

lemma age_tracks_list_all:
  "list_all (\<lambda>(k, t). 0 \<le> age t \<and> age t \<le> m \<and> Q t) ts \<Longrightarrow>
   (\<And>t a. Q t \<Longrightarrow> Q (t\<lparr>age := a\<rparr>)) \<Longrightarrow>
   list_all (\<lambda>(k, t). 0 \<le> age t \<and> age t \<le> m \<and> Q t) (age_tracks m ts)"
  by (induction ts) (auto simp: Let_def)

lemma tracker_inv_age:
  assumes "tracker_inv s"
  shows "tracker_inv (s\<lparr>tracks := age_tracks (max_age s) (tracks s)\<rparr>)"
proof -
  from assms have m: "max_age s = 10" by (simp add: tracker_inv_def)
  have 1: "distinct (dict_keys (age_tracks 10 (tracks s)))"
    using assms by (simp add: tracker_inv_def age_tracks_distinct)
  have 2: "list_all (\<lambda>k. k < next_id s) (dict_keys (age_tracks 10 (tracks s)))"
    using assms age_tracks_keys [of 10 "tracks s"] by (auto simp: tracker_inv_def list_all_iff)
  have 3: "list_all (\<lambda>(k, t). 0 \<le> age t \<and> age t \<le> 10 \<and>
                  list_all (\<lambda>(n, q). q \<noteq> []) (name_votes t)) (age_tracks 10 (tracks s))"
    using assms by (intro age_tracks_list_all) (simp_all add: tracker_inv_def)
  show ?thesis using assms 1 2 3 by (simp add: tracker_inv_def m)
qed

lemma find_best_track_result:
  "find_best_track thr matched bb ts bi b = Some k \<Longrightarrow>
   b = Some k \<or> (k \<in> set (dict_keys ts) \<and> k \<notin> set matched)"
proof (induction ts arbitrary: bi b)
  case Nil
  then show ?case by simp
next
  case (Cons a ts)
  obtain tid t where a: "a = (tid, t)" by (cases a)
  show ?case
  proof (cases "tid \<notin> set matched \<and> calculate_iou bb (bbox t) > bi \<and> calculate_iou bb (bbox t) > thr")
    case True
    with Cons.prems have "find_best_track thr matched bb ts (calculate_iou bb (bbox t)) (Some tid) = Some k"
      by (simp add: a Let_def)
    from Cons.IH [OF this] have "tid = k \<or> (k \<in> set (dict_keys ts) \<and> k \<notin> set matched)"
      by simp
    with True show ?thesis by (auto simp: a dict_keys_def)
  next
    case False
    with Cons.prems have "find_best_track thr matched bb ts bi b = Some k"
      by (auto simp: a Let_def split: if_splits)
    from Cons.IH [OF this] show ?thesis by (auto simp: a dict_keys_def)
  qed
qed

lemma process_detection_props:
  assumes inv: "tracker_inv s"
    and mlt: "\<forall>k\<in>set matched. k < next_id s"
  shows "\<exists>r tid s'. process_detection s matched d = Inr (r, tid, s') \<and>
           tracker_inv s' \<and> tid \<notin> set matched \<and> tid < next_id s' \<and>
           next_id s \<le> next_id s' \<and>
           (tid \<in> set (dict_keys (tracks s)) \<or> tid = next_id s) \<and>
           set (dict_keys (tracks s')) = insert tid (set (dict_keys (tracks s))) \<and>
           (\<forall>k. k \<noteq> tid \<longrightarrow> dict_get (tracks s') k = dict_get (tracks s) k) \<and>
           (\<exists>t. dict_get (tracks s') tid = Some t \<and>
                emitted_for (tid \<in> set (dict_keys (tracks s))) d t r)"
proof -
  obtain bb name confidence is_known where d: "d = (bb, name, confidence, is_known)"
    by (cases d)
  from inv have hs: "0 < history_size s" and dk: "distinct (dict_keys (tracks s))"
    and klt: "\<forall>k\<in>set (dict_keys (tracks s)). k < next_id s"
    and all: "list_all (\<lambda>(k, t). 0 \<le> age t \<and> age t \<le> 10 \<and>
                  list_all (\<lambda>(n, q). q \<noteq> []) (name_votes t)) (tracks s)"
    and ma: "max_age s = 10"
    by (simp_all add: tracker_inv_def list_all_iff [of "\<lambda>k. k < next_id s"])
  show ?thesis
  proof (cases "find_best_track (iou_threshold s) matched bb (tracks s) 0 None")
    case None
    let ?t = "\<lparr>bbox = bb,
               name_votes = (if name \<noteq> [] \<and> is_known
                             then [(name, deque_new (history_size s) [confidence])] else []),
               age = 0\<rparr>"
    let ?s' = "s\<lparr>next_id := next_id s + 1, tracks := dict_set (tracks s) (next_id s) ?t\<rparr>"
    have p: "process_detection s matched d = Inr ((bb, name, confidence, is_known), next_id s, ?s')"
      using None by (simp add: process_detection_def d Let_def)
    have fresh: "next_id s \<notin> set (dict_keys (tracks s))" using klt by auto
    have la: "list_all (\<lambda>(k, t). 0 \<le> age t \<and> age t \<le> 10 \<and>
                  list_all (\<lambda>(n, q). q \<noteq> []) (name_votes t))
                (dict_set (tracks s) (next_id s) ?t)"
      using all hs by (intro list_all_dict_set) (simp_all add: deque_new_single)
    have i': "tracker_inv ?s'"
      using dk klt hs ma la
      by (auto simp: tracker_inv_def distinct_dict_set dict_keys_set list_all_iff)
    have e: "emitted_for (next_id s \<in> set (dict_keys (tracks s))) d ?t (bb, name, confidence, is_known)"
      using fresh hs by (simp add: emitted_for_def d deque_new_single)
    show ?thesis
      using p i' mlt fresh e
      by (intro exI [of _ "(bb, name, confidence, is_known)"] exI [of _ "next_id s"] exI [of _ ?s'])
         (auto simp: dict_keys_set dict_get_set)
  next
    case (Some b)
    from find_best_track_result [OF Some]
    have bk: "b \<in> set (dict_keys (tracks s))" and bm: "b \<notin> set matched" by auto
    then obtain t where t: "dict_get (tracks s) b = Some t"
      using dict_get_None_iff [of "tracks s" b] by (cases "dict_get (tracks s) b") auto
    let ?t1 = "t\<lparr>bbox := bb, age := 0\<rparr>"
    let ?t2 = "(if name \<noteq> [] \<and> is_known
                then ?t1\<lparr>name_votes :=
                        dict_set (name_votes ?t1) name
                          (deque_append (history_size s)
                             (case dict_get (name_votes ?t1) name of None \<Rightarrow> [] | Some q \<Rightarrow> q)
                             confidence)\<rparr>
                else ?t1)"
    let ?st = "stable_label (name_votes ?t2) confidence"
    let ?r = "(bb, fst ?st, snd ?st, fst ?st \<noteq> ''Unknown'')"
    let ?s' = "s\<lparr>tracks := dict_set (tracks s) b ?t2\<rparr>"
    have p: "process_detection s matched d = Inr (?r, b, ?s')"
      using Some t by (simp add: process_detection_def d Let_def)
    from dict_get_mem [OF t] all have tv: "list_all (\<lambda>(n, q). q \<noteq> []) (name_votes t)"
      by (auto simp: list_all_iff [of _ "tracks s"])
    have t2ok: "0 \<le> age ?t2 \<and> age ?t2 \<le> 10 \<and> list_all (\<lambda>(n, q). q \<noteq> []) (name_votes ?t2)"
      using tv hs by (auto intro!: list_all_dict_set simp: deque_append_nonempty)
    have la: "list_all (\<lambda>(k, t). 0 \<le> age t \<and> age t \<le> 10 \<and>
                  list_all (\<lambda>(n, q). q \<noteq> []) (name_votes t)) (dict_set (tracks s) b ?t2)"
      using all t2ok by (intro list_all_dict_set) simp_all
    have i': "tracker_inv ?s'"
      using dk klt hs ma la bk
      by (simp add: tracker_inv_def distinct_dict_set dict_keys_set list_all_iff)
    have e: "emitted_for (b \<in> set (dict_keys (tracks s))) d ?t2 ?r"
      using bk by (simp add: emitted_for_def d)
    have blt: "b < next_id s" using bk klt by auto
    show ?thesis
      using p i' bm bk e blt
      by (intro exI [of _ ?r] exI [of _ b] exI [of _ ?s'])
         (auto simp: dict_keys_set dict_get_set)
  qed
qed

section \<open>Properties of the tracker\<close>

lemmas tracker_defs = update_def update_full_def process_detection_def calculate_iou_def
  iou_union_def iou_intersection_def stable_label_def vote_key_def key_less_def np_mean_def
  deque_append_def deque_new_def FaceTracker_init_def Let_def

lemma emitted_for_bbox: "emitted_for b d t r \<Longrightarrow> fst r = fst d"
  by (cases d) (auto simp: emitted_for_def split: if_splits)

lemma emitted_for_age: "emitted_for b d t r \<Longrightarrow> age t = 0"
  by (cases d) (auto simp: emitted_for_def)

lemma update_loop_props:
  assumes "tracker_inv s" and "\<forall>k\<in>set matched. k < next_id s" and "distinct matched"
  shows "\<exists>rs cl s'. update_loop s matched dets = Inr (rs, matched @ cl, s') \<and>
           length rs = length dets \<and> length cl = length dets \<and>
           map fst rs = map fst dets \<and>
           distinct (matched @ cl) \<and> tracker_inv s' \<and> next_id s \<le> next_id s' \<and>
           (\<forall>k\<in>set cl. k < next_id s') \<and>
           (\<forall>k. k \<notin> set cl \<longrightarrow> dict_get (tracks s') k = dict_get (tracks s) k) \<and>
           (\<forall>i<length dets. \<exists>t. dict_get (tracks s') (cl ! i) = Some t \<and>
                emitted_for (cl ! i < next_id s) (dets ! i) t (rs ! i)) \<and>
           (\<forall>k\<in>set cl. k < next_id s \<longrightarrow> k \<in> set (dict_keys (tracks s)))"
  using assms
proof (induction dets arbitrary: s matched)
  case Nil
  then show ?case by simp
next
  case (Cons d ds)
  note inv = Cons.prems(1) and mlt = Cons.prems(2) and dm = Cons.prems(3)
  from inv have klt: "\<forall>k\<in>set (dict_keys (tracks s)). k < next_id s"
    by (simp add: tracker_inv_def list_all_iff)
  from process_detection_props [OF inv mlt, of d]
  obtain r tid s1 where big: "process_detection s matched d = Inr (r, tid, s1) \<and>
           tracker_inv s1 \<and> tid \<notin> set matched \<and> tid < next_id s1 \<and>
           next_id s \<le> next_id s1 \<and>
           (tid \<in> set (dict_keys (tracks s)) \<or> tid = next_id s) \<and>
           set (dict_keys (tracks s1)) = insert tid (set (dict_keys (tracks s))) \<and>
           (\<forall>k. k \<noteq> tid \<longrightarrow> dict_get (tracks s1) k = dict_get (tracks s) k) \<and>
           (\<exists>t. dict_get (tracks s1) tid = Some t \<and>
                emitted_for (tid \<in> set (dict_keys (tracks s))) d t r)"
    by (elim exE) (rule that)
  then obtain t0 where p: "process_detection s matched d = Inr (r, tid, s1)"
    and inv1: "tracker_inv s1" and tm: "tid \<notin> set matched" and tlt: "tid < next_id s1"
    and nn: "next_id s \<le> next_id s1"
    and tk: "tid \<in> set (dict_keys (tracks s)) \<or> tid = next_id s"
    and keys1: "set (dict_keys (tracks s1)) = insert tid (set (dict_keys (tracks s)))"
    and frame1: "\<forall>k. k \<noteq> tid \<longrightarrow> dict_get (tracks s1) k = dict_get (tracks s) k"
    and t0: "dict_get (tracks s1) tid = Some t0"
    and e0: "emitted_for (tid \<in> set (dict_keys (tracks s))) d t0 r"
    by (elim exE conjE) (rule that)
  have mlt1: "\<forall>k\<in>set (matched @ [tid]). k < next_id s1" using mlt nn tlt by auto
  have dm1: "distinct (matched @ [tid])" using dm tm by simp
  from Cons.IH [OF inv1 mlt1 dm1, unfolded append_assoc]
  obtain rs cl s' where l: "update_loop s1 (matched @ [tid]) ds = Inr (rs, matched @ [tid] @ cl, s')"
    and len: "length rs = length ds" "length cl = length ds"
    and bb: "map fst rs = map fst ds"
    and dist: "distinct (matched @ [tid] @ cl)"
    and inv': "tracker_inv s'" and nn': "next_id s1 \<le> next_id s'"
    and clt: "\<forall>k\<in>set cl. k < next_id s'"
    and frame: "\<forall>k. k \<notin> set cl \<longrightarrow> dict_get (tracks s') k = dict_get (tracks s1) k"
    and em: "\<forall>i<length ds. \<exists>t. dict_get (tracks s') (cl ! i) = Some t \<and>
                emitted_for (cl ! i < next_id s1) (ds ! i) t (rs ! i)"
    and old: "\<forall>k\<in>set cl. k < next_id s1 \<longrightarrow> k \<in> set (dict_keys (tracks s1))"
    by (elim exE conjE) (rule that)
  have tcl: "tid \<notin> set cl" using dist by auto
  have tid_old: "tid \<in> set (dict_keys (tracks s)) \<longleftrightarrow> tid < next_id s"
    using tk klt by auto
  have cl_old: "k < next_id s1 \<longleftrightarrow> k < next_id s" if "k \<in> set cl" for k
  proof
    assume "k < next_id s1"
    with old that have "k \<in> set (dict_keys (tracks s1))" by blast
    moreover from that tcl have "k \<noteq> tid" by auto
    ultimately have "k \<in> set (dict_keys (tracks s))" using keys1 by auto
    with klt show "k < next_id s" by blast
  next
    assume "k < next_id s"
    with nn show "k < next_id s1" by simp
  qed
  have cl_keys: "k \<in> set (dict_keys (tracks s))" if "k \<in> set cl" "k < next_id s" for k
  proof -
    from that cl_old have "k < next_id s1" by blast
    with old that have "k \<in> set (dict_keys (tracks s1))" by blast
    moreover from that tcl have "k \<noteq> tid" by auto
    ultimately show ?thesis using keys1 by auto
  qed
  have 1: "update_loop s matched (d # ds) = Inr (r # rs, matched @ (tid # cl), s')"
    using p l by simp
  have 2: "map fst (r # rs) = map fst (d # ds)"
    using bb emitted_for_bbox [OF e0] by simp
  have 3: "distinct (matched @ (tid # cl))" using dist by simp
  have 4: "\<forall>k\<in>set (tid # cl). k < next_id s'" using clt tlt nn' by auto
  have 5: "\<forall>k. k \<notin> set (tid # cl) \<longrightarrow> dict_get (tracks s') k = dict_get (tracks s) k"
    using frame frame1 by auto
  have 6: "\<exists>t. dict_get (tracks s') ((tid # cl) ! i) = Some t \<and>
                emitted_for ((tid # cl) ! i < next_id s) ((d # ds) ! i) t ((r # rs) ! i)"
    if "i < length (d # ds)" for i
  proof (cases i)
    case 0
    from frame tcl t0 have "dict_get (tracks s') tid = Some t0" by simp
    then show ?thesis using e0 tid_old 0 by auto
  next
    case (Suc j)
    with that have j: "j < length ds" by simp
    with em obtain t where t: "dict_get (tracks s') (cl ! j) = Some t"
      "emitted_for (cl ! j < next_id s1) (ds ! j) t (rs ! j)" by blast
    from j len have "cl ! j \<in> set cl" by simp
    from cl_old [OF this] t show ?thesis using Suc by simp
  qed
  have 7: "\<forall>k\<in>set (tid # cl). k < next_id s \<longrightarrow> k \<in> set (dict_keys (tracks s))"
    using cl_keys tid_old by auto
  have 8: "next_id s \<le> next_id s'" using nn nn' by simp
  show ?case
  proof (intro exI [of _ "r # rs"] exI [of _ "tid # cl"] exI [of _ s'] conjI)
    show "update_loop s matched (d # ds) = Inr (r # rs, matched @ tid # cl, s')" by (fact 1)
    show "length (r # rs) = length (d # ds)" using len by simp
    show "length (tid # cl) = length (d # ds)" using len by simp
    show "map fst (r # rs) = map fst (d # ds)" by (fact 2)
    show "distinct (matched @ tid # cl)" by (fact 3)
    show "tracker_inv s'" by (fact inv')
    show "next_id s \<le> next_id s'" by (fact 8)
    show "\<forall>k\<in>set (tid # cl). k < next_id s'" by (fact 4)
    show "\<forall>k. k \<notin> set (tid # cl) \<longrightarrow> dict_get (tracks s') k = dict_get (tracks s) k"
      by (fact 5)
    show "\<forall>i<length (d # ds). \<exists>t. dict_get (tracks s') ((tid # cl) ! i) = Some t \<and>
            emitted_for ((tid # cl) ! i < next_id s) ((d # ds) ! i) t ((r # rs) ! i)"
      using 6 by blast
    show "\<forall>k\<in>set (tid # cl). k < next_id s \<longrightarrow> k \<in> set (dict_keys (tracks s))"
      by (fact 7)
  qed
qed

lemma emitted_for_track_bbox: "emitted_for b d t r \<Longrightarrow> bbox t = fst d"
  by (cases d) (auto simp: emitted_for_def)

lemma tracker_inv_init: "0 < hs \<Longrightarrow> tracker_inv (FaceTracker_init hs thr)"
  by (simp add: tracker_inv_def FaceTracker_init_def dict_keys_Nil)

lemma update_full_props:
  assumes inv: "tracker_inv s"
  shows "\<exists>rs m s'. update_full s dets = Inr (rs, m, s') \<and>
           length rs = length dets \<and> length m = length dets \<and> map fst rs = map fst dets \<and>
           distinct m \<and> tracker_inv s' \<and>
           (\<forall>k. k \<notin> set m \<longrightarrow>
                dict_get (tracks s') k = dict_get (age_tracks 10 (tracks s)) k) \<and>
           (\<forall>i<length dets. \<exists>t. dict_get (tracks s') (m ! i) = Some t \<and>
                emitted_for (m ! i \<in> set (dict_keys (tracks s))) (dets ! i) t (rs ! i))"
proof -
  let ?s0 = "s\<lparr>tracks := age_tracks (max_age s) (tracks s)\<rparr>"
  from inv have m10: "max_age s = 10" by (simp add: tracker_inv_def)
  from inv have klt: "\<forall>k\<in>set (dict_keys (tracks s)). k < next_id s"
    by (simp add: tracker_inv_def list_all_iff)
  have inv0: "tracker_inv ?s0" by (rule tracker_inv_age [OF inv])
  have e: "\<forall>k\<in>set []. k < next_id ?s0" "distinct ([]::int list)" by simp_all
  from update_loop_props [OF inv0 e, of dets]
  obtain rs cl s' where l: "update_loop ?s0 [] dets = Inr (rs, [] @ cl, s')"
    and len: "length rs = length dets" "length cl = length dets"
    and bb: "map fst rs = map fst dets"
    and dist: "distinct ([] @ cl)"
    and inv': "tracker_inv s'"
    and frame: "\<forall>k. k \<notin> set cl \<longrightarrow> dict_get (tracks s') k = dict_get (tracks ?s0) k"
    and em: "\<forall>i<length dets. \<exists>t. dict_get (tracks s') (cl ! i) = Some t \<and>
                emitted_for (cl ! i < next_id ?s0) (dets ! i) t (rs ! i)"
    and old: "\<forall>k\<in>set cl. k < next_id ?s0 \<longrightarrow> k \<in> set (dict_keys (tracks ?s0))"
    by (elim exE conjE) (rule that)
  have iff: "k < next_id s \<longleftrightarrow> k \<in> set (dict_keys (tracks s))" if "k \<in> set cl" for k
  proof
    assume "k < next_id s"
    with old that have "k \<in> set (dict_keys (age_tracks (max_age s) (tracks s)))" by simp
    with age_tracks_keys show "k \<in> set (dict_keys (tracks s))" by blast
  next
    assume "k \<in> set (dict_keys (tracks s))"
    with klt show "k < next_id s" by blast
  qed
  have em': "\<exists>t. dict_get (tracks s') (cl ! i) = Some t \<and>
                emitted_for (cl ! i \<in> set (dict_keys (tracks s))) (dets ! i) t (rs ! i)"
    if "i < length dets" for i
  proof -
    from that len have c: "cl ! i \<in> set cl" by simp
    from em that have "\<exists>t. dict_get (tracks s') (cl ! i) = Some t \<and>
                emitted_for (cl ! i < next_id s) (dets ! i) t (rs ! i)" by simp
    then show ?thesis unfolding iff [OF c] .
  qed
  show ?thesis
  proof (intro exI [of _ rs] exI [of _ cl] exI [of _ s'] conjI)
    show "update_full s dets = Inr (rs, cl, s')" using l by (simp add: update_full_def)
    show "length rs = length dets" "length cl = length dets" by (fact len)+
    show "map fst rs = map fst dets" by (fact bb)
    show "distinct cl" using dist by simp
    show "tracker_inv s'" by (fact inv')
    show "\<forall>k. k \<notin> set cl \<longrightarrow> dict_get (tracks s') k = dict_get (age_tracks 10 (tracks s)) k"
      using frame m10 by simp
    show "\<forall>i<length dets. \<exists>t. dict_get (tracks s') (cl ! i) = Some t \<and>
            emitted_for (cl ! i \<in> set (dict_keys (tracks s))) (dets ! i) t (rs ! i)"
      using em' by blast
  qed
qed

lemma reachable_tracker_inv: "reachable s \<Longrightarrow> tracker_inv s"
proof (induction rule: reachable.induct)
  case (reachable_init hs thr)
  then show ?case by (rule tracker_inv_init)
next
  case (reachable_update s dets rs s')
  from update_full_props [OF reachable_update.IH, of dets]
  obtain rs0 m s0 where "update_full s dets = Inr (rs0, m, s0)" "tracker_inv s0"
    by (elim exE conjE) (rule that)
  with reachable_update.hyps(2) show ?case by (simp add: update_def)
qed

lemma update_of_update_full:
  "update_full s dets = Inr (rs, m, s') \<Longrightarrow> update s dets = Inr (rs, s')"
  by (simp add: update_def)

text \<open>The example trackers are reachable: each is what \<open>update\<close> leaves after one more frame
  with Alice detected at the same box.\<close>

lemma reachable_alice_tracker_1: "reachable (alice_tracker [9 / 10])"
proof -
  have r: "reachable (FaceTracker_init 5 (1 / 2))" by (rule reachable_init) simp
  have "update (FaceTracker_init 5 (1 / 2)) [((10, 10, 50, 50), ''Alice'', 9 / 10, True)] =
          Inr ([((10, 10, 50, 50), ''Alice'', 9 / 10, True)], alice_tracker [9 / 10])"
    by (simp add: tracker_defs alice_tracker_def)
  from reachable_update [OF r this] show ?thesis .
qed


text \<open>
  Claim C10. For every tracker state that can arise and every list of detections, \<open>update\<close>
  returns, and its result has exactly one tuple per detection, the \<open>i\<close>-th carrying the
  \<open>i\<close>-th detection's bounding box. The ids \<open>m\<close> added to \<open>matched_tracks\<close>, one per
  detection in input order, are pairwise different: no track is associated with two
  detections of the same call; after the call track \<open>m ! i\<close> holds the box of detection \<open>i\<close>.
\<close>

theorem update_results_in_order:
  assumes "reachable s"
  shows "\<exists>rs m s'. update_full s dets = Inr (rs, m, s') \<and> update s dets = Inr (rs, s') \<and>
           length rs = length dets \<and> map fst rs = map fst dets \<and>
           length m = length dets \<and> distinct m \<and>
           (\<forall>i<length dets. \<exists>t. dict_get (tracks s') (m ! i) = Some t \<and>
                                  bbox t = fst (dets ! i))"
proof -
  from update_full_props [OF reachable_tracker_inv [OF assms], of dets]
  obtain rs m s' where u: "update_full s dets = Inr (rs, m, s')"
    and len: "length rs = length dets" "length m = length dets"
    and bb: "map fst rs = map fst dets" and dist: "distinct m"
    and em: "\<forall>i<length dets. \<exists>t. dict_get (tracks s') (m ! i) = Some t \<and>
                emitted_for (m ! i \<in> set (dict_keys (tracks s))) (dets ! i) t (rs ! i)"
    by (elim exE conjE) (rule that)
  have "\<forall>i<length dets. \<exists>t. dict_get (tracks s') (m ! i) = Some t \<and> bbox t = fst (dets ! i)"
    using em emitted_for_track_bbox by blast
  with u update_of_update_full [OF u] len bb dist show ?thesis by blast
qed

theorem update_results_in_order_witness:
  "reachable (alice_tracker [9 / 10]) \<and>
   (\<exists>rs m s'. update_full (alice_tracker [9 / 10])
        [((12, 10, 50, 50), ''Alice'', 8 / 10, True), ((11, 10, 50, 50), ''Unknown'', 7 / 10, False)]
          = Inr (rs, m, s') \<and>
      length rs = 2 \<and> map fst rs = [(12, 10, 50, 50), (11, 10, 50, 50)] \<and> distinct m)"
proof -
  let ?dets = "[((12, 10, 50, 50), ''Alice'', 8 / 10, True),
                ((11, 10, 50, 50), ''Unknown'', 7 / 10, False)] :: detection list"
  from update_results_in_order [OF reachable_alice_tracker_1, of ?dets]
  obtain rs m s' where "update_full (alice_tracker [9 / 10]) ?dets = Inr (rs, m, s')"
    "length rs = length ?dets" "map fst rs = map fst ?dets" "distinct m"
    by (elim exE conjE) (rule that)
  then have "\<exists>rs m s'. update_full (alice_tracker [9 / 10]) ?dets = Inr (rs, m, s') \<and>
      length rs = 2 \<and> map fst rs = [(12, 10, 50, 50), (11, 10, 50, 50)] \<and> distinct m"
    by (intro exI [of _ rs] exI [of _ m] exI [of _ s']) simp
  with reachable_alice_tracker_1 show ?thesis by (rule conjI)
qed


text \<open>
  Claim C4, as amended. For every tracker state that can arise, every call of \<open>update\<close> and
  every detection \<open>i\<close> of the call, with \<open>t\<close> the track the detection is associated with as it
  stands after the call: when the track was in the tracker before the call (re-matched), the
  emitted tuple is \<open>(bbox, stable_name, stable_confidence, stable_name \<noteq> "Unknown")\<close>, the
  stabilised label being computed from the track's votes, and \<open>("Unknown", confidence)\<close>
  of the current detection when there are none; when the track was created by the detection,
  the emitted tuple is the detection itself, unchanged, and the track's votes are seeded from
  it. This is \<open>emitted_for\<close>.
\<close>

theorem update_emits:
  assumes "reachable s"
  shows "\<exists>rs m s'. update_full s dets = Inr (rs, m, s') \<and> update s dets = Inr (rs, s') \<and>
           length rs = length dets \<and> length m = length dets \<and>
           (\<forall>i<length dets. \<exists>t. dict_get (tracks s') (m ! i) = Some t \<and>
                emitted_for (m ! i \<in> set (dict_keys (tracks s))) (dets ! i) t (rs ! i))"
proof -
  from update_full_props [OF reachable_tracker_inv [OF assms], of dets]
  obtain rs m s' where u: "update_full s dets = Inr (rs, m, s')"
    and len: "length rs = length dets" "length m = length dets"
    and em: "\<forall>i<length dets. \<exists>t. dict_get (tracks s') (m ! i) = Some t \<and>
                emitted_for (m ! i \<in> set (dict_keys (tracks s))) (dets ! i) t (rs ! i)"
    by (elim exE conjE) (rule that)
  with update_of_update_full [OF u] show ?thesis by blast
qed

theorem update_emits_witness:
  "reachable (alice_tracker [9 / 10]) \<and>
   (\<exists>rs m s' t. update (alice_tracker [9 / 10]) [((12, 10, 50, 50), ''Alice'', 8 / 10, True)]
          = Inr (rs, s') \<and>
      dict_get (tracks s') (m ! 0) = Some t \<and>
      emitted_for (m ! 0 \<in> set (dict_keys (tracks (alice_tracker [9 / 10]))))
        ((12, 10, 50, 50), ''Alice'', 8 / 10, True) t (rs ! 0))"
proof -
  let ?dets = "[((12, 10, 50, 50), ''Alice'', 8 / 10, True)] :: detection list"
  from update_emits [OF reachable_alice_tracker_1, of ?dets]
  obtain rs m s' where u: "update (alice_tracker [9 / 10]) ?dets = Inr (rs, s')"
    and em: "\<forall>i<length ?dets. \<exists>t. dict_get (tracks s') (m ! i) = Some t \<and>
                emitted_for (m ! i \<in> set (dict_keys (tracks (alice_tracker [9 / 10]))))
                  (?dets ! i) t (rs ! i)"
    by (elim exE conjE) (rule that)
  have "0 < length ?dets" by simp
  from em [rule_format, OF this]
  obtain t where "dict_get (tracks s') (m ! 0) = Some t"
    "emitted_for (m ! 0 \<in> set (dict_keys (tracks (alice_tracker [9 / 10])))) (?dets ! 0) t (rs ! 0)"
    by (elim exE conjE) (rule that)
  with u have "\<exists>rs m s' t. update (alice_tracker [9 / 10]) ?dets = Inr (rs, s') \<and>
      dict_get (tracks s') (m ! 0) = Some t \<and>
      emitted_for (m ! 0 \<in> set (dict_keys (tracks (alice_tracker [9 / 10]))))
        ((12, 10, 50, 50), ''Alice'', 8 / 10, True) t (rs ! 0)"
    by (intro exI [of _ rs] exI [of _ m] exI [of _ s'] exI [of _ t]) simp
  with reachable_alice_tracker_1 show ?thesis by (rule conjI)
qed

text \<open>
  Claim C4 as stated fails for tracks created by the call: on a fresh tracker, a detection
  recognised as a person registered under the name \<open>Unknown\<close> is emitted with
  \<open>is_known = True\<close> although its name, which is also the stabilised label of the new track,
  is \<open>"Unknown"\<close>; and a detection \<open>("Alice", 0.8, False)\<close> is emitted with that name and
  \<open>is_known = False\<close>.
\<close>

theorem update_new_track_raw_counterexample:
  "update (FaceTracker_init 5 (1 / 2))
     [((10, 10, 50, 50), ''Unknown'', 9 / 10, True), ((200, 200, 50, 50), ''Alice'', 8 / 10, False)] =
   Inr ([((10, 10, 50, 50), ''Unknown'', 9 / 10, True), ((200, 200, 50, 50), ''Alice'', 8 / 10, False)],
        \<lparr>tracks = [(0, \<lparr>bbox = (10, 10, 50, 50), name_votes = [(''Unknown'', [9 / 10])], age = 0\<rparr>),
                   (1, \<lparr>bbox = (200, 200, 50, 50), name_votes = [], age = 0\<rparr>)],
         next_id = 2, history_size = 5, iou_threshold = 1 / 2, max_age = 10\<rparr>)"
  by (simp add: tracker_defs)


lemma run_updates_unmatched:
  assumes "tracker_inv s"
  shows "\<exists>ms s'. run_updates s frames = Inr (ms, s') \<and> length ms = length frames \<and>
           tracker_inv s' \<and>
           (\<forall>k. (\<forall>m\<in>set ms. k \<notin> set m) \<longrightarrow>
              dict_get (tracks s') k =
                (case dict_get (tracks s) k of
                   None \<Rightarrow> None
                 | Some t \<Rightarrow> if age t + int (length frames) > 10 then None
                             else Some (t\<lparr>age := age t + int (length frames)\<rparr>)))"
  using assms
proof (induction frames arbitrary: s)
  case Nil
  have "dict_get (tracks s) k =
          (case dict_get (tracks s) k of
             None \<Rightarrow> None
           | Some t \<Rightarrow> if age t + int (length ([]::detection list list)) > 10 then None
                       else Some (t\<lparr>age := age t + int (length ([]::detection list list))\<rparr>))" for k
  proof (cases "dict_get (tracks s) k")
    case None
    then show ?thesis by simp
  next
    case (Some t)
    from dict_get_mem [OF Some] Nil have "age t \<le> 10"
      by (auto simp: tracker_inv_def list_all_iff)
    then show ?thesis using Some by simp
  qed
  then show ?case using Nil by simp
next
  case (Cons dets frames)
  from update_full_props [OF Cons.prems, of dets]
  obtain rs m s1 where u: "update_full s dets = Inr (rs, m, s1)" and inv1: "tracker_inv s1"
    and frame: "\<forall>k. k \<notin> set m \<longrightarrow>
                  dict_get (tracks s1) k = dict_get (age_tracks 10 (tracks s)) k"
    by (elim exE conjE) (rule that)
  from Cons.IH [OF inv1]
  obtain ms s' where r: "run_updates s1 frames = Inr (ms, s')"
    and len: "length ms = length frames" and inv': "tracker_inv s'"
    and un: "\<forall>k. (\<forall>m\<in>set ms. k \<notin> set m) \<longrightarrow>
              dict_get (tracks s') k =
                (case dict_get (tracks s1) k of
                   None \<Rightarrow> None
                 | Some t \<Rightarrow> if age t + int (length frames) > 10 then None
                             else Some (t\<lparr>age := age t + int (length frames)\<rparr>))"
    by (elim exE conjE) (rule that)
  from Cons.prems have dk: "distinct (dict_keys (tracks s))" by (simp add: tracker_inv_def)
  have step: "dict_get (tracks s') k =
                (case dict_get (tracks s) k of
                   None \<Rightarrow> None
                 | Some t \<Rightarrow> if age t + int (length (dets # frames)) > 10 then None
                             else Some (t\<lparr>age := age t + int (length (dets # frames))\<rparr>))"
    if "\<forall>m'\<in>set (m # ms). k \<notin> set m'" for k
  proof -
    from that have km: "k \<notin> set m" and kms: "\<forall>m\<in>set ms. k \<notin> set m" by auto
    from frame km have s1: "dict_get (tracks s1) k =
        (case dict_get (tracks s) k of
           None \<Rightarrow> None
         | Some t \<Rightarrow> if age t + 1 > 10 then None else Some (t\<lparr>age := age t + 1\<rparr>))"
      by (simp add: dict_get_age_tracks [OF dk])
    from un kms have "dict_get (tracks s') k =
                (case dict_get (tracks s1) k of
                   None \<Rightarrow> None
                 | Some t \<Rightarrow> if age t + int (length frames) > 10 then None
                             else Some (t\<lparr>age := age t + int (length frames)\<rparr>))" by blast
    then show ?thesis unfolding s1
      by (cases "dict_get (tracks s) k") (auto simp: add.assoc)
  qed
  show ?case
  proof (intro exI [of _ "m # ms"] exI [of _ s'] conjI)
    show "run_updates s (dets # frames) = Inr (m # ms, s')" using u r by simp
    show "length (m # ms) = length (dets # frames)" using len by simp
    show "tracker_inv s'" by (fact inv')
    show "\<forall>k. (\<forall>m\<in>set (m # ms). k \<notin> set m) \<longrightarrow>
              dict_get (tracks s') k =
                (case dict_get (tracks s) k of
                   None \<Rightarrow> None
                 | Some t \<Rightarrow> if age t + int (length (dets # frames)) > 10 then None
                             else Some (t\<lparr>age := age t + int (length (dets # frames))\<rparr>))"
      using step by blast
  qed
qed

lemma run_updates_no_detections:
  "run_updates s (replicate n []) = Inr (ms, s') \<Longrightarrow> ms = replicate n []"
  by (induction n arbitrary: s ms s') (auto simp: update_full_def split: sum.splits)

text \<open>
  Claim C3. In every tracker state that can arise each track's age is between 0 and 10. A
  call of \<open>update\<close> leaves every track that a detection was associated with (the ids \<open>m\<close>)
  in the state with age 0; every other track has its age increased by exactly 1 and is
  otherwise unchanged when that age is at most 10, and is removed when it exceeds 10; no
  other track appears. Over any sequence of calls, a track associated with no detection
  in any of them has aged by the number of calls, and is removed exactly when that exceeds
  10; after 11 calls it is absent.
\<close>

theorem track_age_lifecycle:
  assumes "reachable s"
  shows "(\<forall>k t. dict_get (tracks s) k = Some t \<longrightarrow> 0 \<le> age t \<and> age t \<le> 10) \<and>
         (\<exists>rs m s'. update_full s dets = Inr (rs, m, s') \<and> update s dets = Inr (rs, s') \<and>
            (\<forall>k\<in>set m. \<exists>t. dict_get (tracks s') k = Some t \<and> age t = 0) \<and>
            (\<forall>k. k \<notin> set m \<longrightarrow>
               dict_get (tracks s') k =
                 (case dict_get (tracks s) k of
                    None \<Rightarrow> None
                  | Some t \<Rightarrow> if age t + 1 > 10 then None else Some (t\<lparr>age := age t + 1\<rparr>)))) \<and>
         (\<exists>ms s'. run_updates s frames = Inr (ms, s') \<and> length ms = length frames \<and>
            (\<forall>k. (\<forall>m\<in>set ms. k \<notin> set m) \<longrightarrow>
               dict_get (tracks s') k =
                 (case dict_get (tracks s) k of
                    None \<Rightarrow> None
                  | Some t \<Rightarrow> if age t + int (length frames) > 10 then None
                              else Some (t\<lparr>age := age t + int (length frames)\<rparr>))) \<and>
            (length frames = 11 \<longrightarrow>
               (\<forall>k. (\<forall>m\<in>set ms. k \<notin> set m) \<longrightarrow> dict_get (tracks s') k = None)))"
proof -
  note inv = reachable_tracker_inv [OF assms]
  have ages: "0 \<le> age t \<and> age t \<le> 10" if "dict_get (tracks s) k = Some t" for k t
    using dict_get_mem [OF that] inv by (auto simp: tracker_inv_def list_all_iff)
  from inv have dk: "distinct (dict_keys (tracks s))" by (simp add: tracker_inv_def)
  from update_full_props [OF inv, of dets]
  obtain rs m s' where u: "update_full s dets = Inr (rs, m, s')"
    and len: "length m = length dets"
    and frame: "\<forall>k. k \<notin> set m \<longrightarrow>
                  dict_get (tracks s') k = dict_get (age_tracks 10 (tracks s)) k"
    and em: "\<forall>i<length dets. \<exists>t. dict_get (tracks s') (m ! i) = Some t \<and>
                emitted_for (m ! i \<in> set (dict_keys (tracks s))) (dets ! i) t (rs ! i)"
    by (elim exE conjE) (rule that)
  have reset: "\<exists>t. dict_get (tracks s') k = Some t \<and> age t = 0" if "k \<in> set m" for k
  proof -
    from that len obtain i where "i < length dets" "m ! i = k"
      by (auto simp: in_set_conv_nth)
    with em emitted_for_age show ?thesis by blast
  qed
  have one: "\<exists>rs m s'. update_full s dets = Inr (rs, m, s') \<and> update s dets = Inr (rs, s') \<and>
            (\<forall>k\<in>set m. \<exists>t. dict_get (tracks s') k = Some t \<and> age t = 0) \<and>
            (\<forall>k. k \<notin> set m \<longrightarrow>
               dict_get (tracks s') k =
                 (case dict_get (tracks s) k of
                    None \<Rightarrow> None
                  | Some t \<Rightarrow> if age t + 1 > 10 then None else Some (t\<lparr>age := age t + 1\<rparr>)))"
  proof (intro exI [of _ rs] exI [of _ m] exI [of _ s'] conjI)
    show "update_full s dets = Inr (rs, m, s')" by (fact u)
    show "update s dets = Inr (rs, s')" by (rule update_of_update_full [OF u])
    show "\<forall>k\<in>set m. \<exists>t. dict_get (tracks s') k = Some t \<and> age t = 0"
      using reset by blast
    show "\<forall>k. k \<notin> set m \<longrightarrow>
               dict_get (tracks s') k =
                 (case dict_get (tracks s) k of
                    None \<Rightarrow> None
                  | Some t \<Rightarrow> if age t + 1 > 10 then None else Some (t\<lparr>age := age t + 1\<rparr>))"
      using frame by (simp add: dict_get_age_tracks [OF dk])
  qed
  from run_updates_unmatched [OF inv, of frames]
  obtain ms s2 where r: "run_updates s frames = Inr (ms, s2)" and lms: "length ms = length frames"
    and un: "\<forall>k. (\<forall>m\<in>set ms. k \<notin> set m) \<longrightarrow>
               dict_get (tracks s2) k =
                 (case dict_get (tracks s) k of
                    None \<Rightarrow> None
                  | Some t \<Rightarrow> if age t + int (length frames) > 10 then None
                              else Some (t\<lparr>age := age t + int (length frames)\<rparr>))"
    by (elim exE conjE) (rule that)
  have gone: "dict_get (tracks s2) k = None"
    if "length frames = 11" "\<forall>m\<in>set ms. k \<notin> set m" for k
  proof (cases "dict_get (tracks s) k")
    case None
    with un that(2) show ?thesis by simp
  next
    case (Some t)
    from ages [OF Some] that(1) have "age t + int (length frames) > 10" by simp
    with un that(2) Some show ?thesis by simp
  qed
  have two: "\<exists>ms s'. run_updates s frames = Inr (ms, s') \<and> length ms = length frames \<and>
            (\<forall>k. (\<forall>m\<in>set ms. k \<notin> set m) \<longrightarrow>
               dict_get (tracks s') k =
                 (case dict_get (tracks s) k of
                    None \<Rightarrow> None
                  | Some t \<Rightarrow> if age t + int (length frames) > 10 then None
                              else Some (t\<lparr>age := age t + int (length frames)\<rparr>))) \<and>
            (length frames = 11 \<longrightarrow>
               (\<forall>k. (\<forall>m\<in>set ms. k \<notin> set m) \<longrightarrow> dict_get (tracks s') k = None))"
  proof (intro exI [of _ ms] exI [of _ s2] conjI)
    show "run_updates s frames = Inr (ms, s2)" by (fact r)
    show "length ms = length frames" by (fact lms)
    show "\<forall>k. (\<forall>m\<in>set ms. k \<notin> set m) \<longrightarrow>
               dict_get (tracks s2) k =
                 (case dict_get (tracks s) k of
                    None \<Rightarrow> None
                  | Some t \<Rightarrow> if age t + int (length frames) > 10 then None
                              else Some (t\<lparr>age := age t + int (length frames)\<rparr>))"
      by (fact un)
    show "length frames = 11 \<longrightarrow>
               (\<forall>k. (\<forall>m\<in>set ms. k \<notin> set m) \<longrightarrow> dict_get (tracks s2) k = None)"
      using gone by blast
  qed
  show ?thesis
  proof (intro conjI)
    show "\<forall>k t. dict_get (tracks s) k = Some t \<longrightarrow> 0 \<le> age t \<and> age t \<le> 10"
      using ages by blast
  qed (fact one, fact two)
qed

theorem track_age_lifecycle_witness:
  "reachable (alice_tracker [9 / 10]) \<and>
   map_option age (dict_get (tracks (alice_tracker [9 / 10])) 0) = Some 0 \<and>
   (\<exists>ms s'. run_updates (alice_tracker [9 / 10]) (replicate 11 []) = Inr (ms, s') \<and>
      dict_get (tracks s') 0 = None)"
proof -
  let ?frames = "replicate 11 [] :: detection list list"
  from track_age_lifecycle [OF reachable_alice_tracker_1, of "[]" ?frames]
  obtain ms s' where r: "run_updates (alice_tracker [9 / 10]) ?frames = Inr (ms, s')"
    and gone: "length ?frames = 11 \<longrightarrow>
                 (\<forall>k. (\<forall>m\<in>set ms. k \<notin> set m) \<longrightarrow> dict_get (tracks s') k = None)"
    by (elim exE conjE) (rule that)
  from run_updates_no_detections [OF r] have "\<forall>m\<in>set ms. (0::int) \<notin> set m" by simp
  with gone have "dict_get (tracks s') 0 = None" by simp
  with r have "\<exists>ms s'. run_updates (alice_tracker [9 / 10]) ?frames = Inr (ms, s') \<and>
      dict_get (tracks s') 0 = None" by blast
  moreover have "map_option age (dict_get (tracks (alice_tracker [9 / 10])) 0) = Some 0"
    by (simp add: alice_tracker_def)
  ultimately show ?thesis using reachable_alice_tracker_1 by blast
qed













section \<open>Properties of the gallery and its store\<close>

text \<open>
  Claim C9. For every gallery, name and vector, \<open>add_person\<close> returns \<open>True\<close>; afterwards the
  sample list of \<open>name\<close> is its previous list (empty if the name was absent) with the vector
  appended at the end, and its \<open>last_updated\<close> metadata is the new time stamp; the entry of
  every other identity (samples and metadata) is unchanged, and no identity's sample list is
  shorter than before.
\<close>

theorem add_person_appends:
  "\<exists>db'. add_person now_added now_updated db name enc md = (True, db') \<and>
     (\<exists>p'. dict_get db' name = Some p' \<and>
           encodings p' = (case dict_get db name of None \<Rightarrow> [] | Some p \<Rightarrow> encodings p) @ [enc] \<and>
           dict_get (metadata p') ''last_updated'' = Some now_updated) \<and>
     (\<forall>other. other \<noteq> name \<longrightarrow> dict_get db' other = dict_get db other) \<and>
     (\<forall>n p. dict_get db n = Some p \<longrightarrow>
        (\<exists>p'. dict_get db' n = Some p' \<and> length (encodings p) \<le> length (encodings p')))"
proof (cases "dict_get db name")
  case None
  then show ?thesis
    by (auto simp: add_person_def Let_def dict_get_set)
next
  case (Some p)
  then show ?thesis
    by (auto simp: add_person_def Let_def dict_get_set)
qed

theorem add_person_appends_witness:
  "\<exists>db'. add_person ''t1'' ''t2'' [(''Alice'', \<lparr>encodings = [[1]], metadata = []\<rparr>)] ''Bob'' [2] None
           = (True, db') \<and>
         dict_get db' ''Alice'' = Some \<lparr>encodings = [[1]], metadata = []\<rparr> \<and>
         map_option encodings (dict_get db' ''Bob'') = Some [[2]]"
  using add_person_appends [of "''t1''" "''t2''"
      "[(''Alice'', \<lparr>encodings = [[1]], metadata = []\<rparr>)]" "''Bob''" "[2]" None]
  by auto



subsection \<open>Saving\<close>






end
